theory Spec2Isabelle
  imports Main "HOL-Library.Word"
begin

section \<open>The data model of CircularBuffer.h\<close>

text \<open>
  \<^verbatim>\<open>struct DataPacket { uint32_t id; uint32_t timestamp; int16_t value; }\<close>.
  The field \<^verbatim>\<open>id\<close> is called \<open>id_pkt\<close> and the field \<^verbatim>\<open>value\<close> is called
  \<open>value_pkt\<close> here, since both names are taken in Isabelle. The sample is a 16-bit
  word; \<open>sint\<close> reads it as the signed \<^verbatim>\<open>int16_t\<close>. The buffer only copies it.
\<close>

record DataPacket =
  id_pkt :: "32 word"
  timestamp :: "32 word"
  value_pkt :: "16 word"

text \<open>
  \<^verbatim>\<open>class CircularBuffer\<close>: the backing array \<^verbatim>\<open>buffer\<close> (a list holding its
  slots), \<^verbatim>\<open>bufferSize\<close>, the three \<^verbatim>\<open>uint16_t\<close> indices and counter, and the
  \<^verbatim>\<open>uint32_t\<close> packet counter \<^verbatim>\<open>ID\<close>. The \<^verbatim>\<open>portMUX_TYPE mutex\<close> only brackets
  each method body between \<^verbatim>\<open>portENTER_CRITICAL\<close> and \<^verbatim>\<open>portEXIT_CRITICAL\<close>;
  every method is modelled as the one atomic step that bracket makes of it.
\<close>

record CircularBuffer =
  buffer :: "DataPacket list"
  bufferSize :: "16 word"
  head :: "16 word"
  tail :: "16 word"
  count :: "16 word"
  ID :: "32 word"

section \<open>Construction\<close>

text \<open>
  \<^verbatim>\<open>buffer = new DataPacket[bufferSize]\<close> either throws \<^verbatim>\<open>std::bad_alloc\<close> or hands
  back \<^verbatim>\<open>bufferSize\<close> slots whose content is indeterminate (\<^verbatim>\<open>DataPacket\<close> has no
  constructor). The heap's answer is a parameter of the model: \<open>Storage g\<close> gives
  slot \<open>i\<close> the content \<open>g i\<close>. \<^verbatim>\<open>new DataPacket[0]\<close> is a valid array of no
  slots. The in-class initialisers set \<^verbatim>\<open>head\<close>, \<^verbatim>\<open>tail\<close>, \<^verbatim>\<open>count\<close> and
  \<^verbatim>\<open>ID\<close> to 0. The constructor body has no check on \<^verbatim>\<open>size\<close>.
\<close>

datatype heap_reply = OutOfMemory | Storage "nat \<Rightarrow> DataPacket"

datatype ctor_error = BadAlloc

definition new_array :: "heap_reply \<Rightarrow> nat \<Rightarrow> DataPacket list option" where
  "new_array h n = (case h of OutOfMemory \<Rightarrow> None | Storage g \<Rightarrow> Some (map g [0..<n]))"

definition CircularBuffer_ctor :: "heap_reply \<Rightarrow> 16 word \<Rightarrow> ctor_error + CircularBuffer" where
  "CircularBuffer_ctor h size_arg =
     (case new_array h (unat size_arg) of
        None \<Rightarrow> Inl BadAlloc
      | Some mem \<Rightarrow>
          Inr \<lparr>buffer = mem, bufferSize = size_arg, head = 0, tail = 0, count = 0, ID = 0\<rparr>)"

section \<open>The operations of CircularBuffer.cpp\<close>

text \<open>
  \<^verbatim>\<open>(x + 1) % bufferSize\<close> on \<^verbatim>\<open>uint16_t\<close> operands: both are promoted to
  \<^verbatim>\<open>int\<close>, so the sum does not wrap at 16 bits; the remainder is then stored back
  into a \<^verbatim>\<open>uint16_t\<close>. A zero \<^verbatim>\<open>bufferSize\<close> is a division by zero, which has no
  defined result: \<open>None\<close>.
\<close>

definition advance :: "16 word \<Rightarrow> 16 word \<Rightarrow> 16 word option" where
  "advance x bsize =
     (if bsize = 0 then None
      else Some (word_of_nat ((unat x + 1) mod unat bsize)))"

text \<open>
  \<^verbatim>\<open>bool CircularBuffer::write(int16_t value, uint32_t time)\<close>, called
  \<open>write_cb\<close> here since the plain name is an Isabelle keyword. The three stores
  into \<^verbatim>\<open>buffer[head]\<close> are outside the array when \<^verbatim>\<open>head\<close> is not below the
  number of slots: no defined result, \<open>None\<close>. Otherwise the result is the
  \<^verbatim>\<open>overflow\<close> flag and the buffer after the call. \<^verbatim>\<open>ID++\<close> and \<^verbatim>\<open>count++\<close> are
  unsigned increments, which wrap.
\<close>

definition write_cb :: "CircularBuffer \<Rightarrow> 16 word \<Rightarrow> 32 word \<Rightarrow> (bool \<times> CircularBuffer) option" where
  "write_cb b val time =
     (if \<not> unat (head b) < length (buffer b) then None
      else
        let b1 = b\<lparr>buffer := (buffer b)[unat (head b) :=
                      \<lparr>id_pkt = ID b, timestamp = time, value_pkt = val\<rparr>]\<rparr>
        in case advance (head b1) (bufferSize b1) of
             None \<Rightarrow> None
           | Some h \<Rightarrow>
               let b2 = b1\<lparr>head := h, ID := ID b1 + 1\<rparr>
               in if count b2 < bufferSize b2
                  then Some (False, b2\<lparr>count := count b2 + 1\<rparr>)
                  else (case advance (tail b2) (bufferSize b2) of
                          None \<Rightarrow> None
                        | Some t \<Rightarrow> Some (True, b2\<lparr>tail := t\<rparr>)))"

text \<open>
  \<^verbatim>\<open>bool CircularBuffer::read(DataPacket* packet)\<close>. The second argument is the
  content of \<^verbatim>\<open>*packet\<close> before the call; the result is the returned flag, the
  content of \<^verbatim>\<open>*packet\<close> after the call, and the buffer after the call. Reading
  \<^verbatim>\<open>buffer[tail]\<close> outside the array has no defined result.
\<close>

definition read :: "CircularBuffer \<Rightarrow> DataPacket \<Rightarrow> (bool \<times> DataPacket \<times> CircularBuffer) option" where
  "read b packet =
     (if 0 < count b then
        (if \<not> unat (tail b) < length (buffer b) then None
         else
           let packet' = buffer b ! unat (tail b)
           in case advance (tail b) (bufferSize b) of
                None \<Rightarrow> None
              | Some t \<Rightarrow> Some (True, packet', b\<lparr>tail := t, count := count b - 1\<rparr>))
      else Some (False, packet, b))"

text \<open>
  \<^verbatim>\<open>uint16_t CircularBuffer::available()\<close>: the returned number and the buffer
  after the call.
\<close>

definition available :: "CircularBuffer \<Rightarrow> 16 word \<times> CircularBuffer" where
  "available b = (let available = count b in (available, b))"

section \<open>Clients: sequences of calls\<close>

text \<open>
  A caller's sequence of \<^verbatim>\<open>write\<close> and \<^verbatim>\<open>read\<close> calls on one buffer. \<open>Read p\<close>
  is a call whose \<^verbatim>\<open>*packet\<close> holds \<open>p\<close> beforehand. \<open>run\<close> is the buffer after the
  whole sequence, \<open>None\<close> when a call has no defined result.
\<close>

datatype operation = Write "16 word" "32 word" | Read DataPacket

fun exec :: "CircularBuffer \<Rightarrow> operation \<Rightarrow> CircularBuffer option" where
  "exec b (Write val time) = map_option snd (write_cb b val time)"
| "exec b (Read packet) = map_option (\<lambda>r. snd (snd r)) (read b packet)"

fun run :: "CircularBuffer \<Rightarrow> operation list \<Rightarrow> CircularBuffer option" where
  "run b [] = Some b"
| "run b (x # xs) = (case exec b x of None \<Rightarrow> None | Some b' \<Rightarrow> run b' xs)"

fun writes_in :: "operation list \<Rightarrow> nat" where
  "writes_in [] = 0"
| "writes_in (Write val time # xs) = Suc (writes_in xs)"
| "writes_in (Read packet # xs) = writes_in xs"

text \<open>
  A producer writing the samples \<open>(val, time)\<close> of a list in order: the overflow
  flags of the calls, in order, and the buffer afterwards.
\<close>

fun write_all :: "CircularBuffer \<Rightarrow> (16 word \<times> 32 word) list \<Rightarrow> (bool list \<times> CircularBuffer) option" where
  "write_all b [] = Some ([], b)"
| "write_all b (x # xs) =
     (case write_cb b (fst x) (snd x) of
        None \<Rightarrow> None
      | Some r \<Rightarrow>
          (case write_all (snd r) xs of
             None \<Rightarrow> None
           | Some rs \<Rightarrow> Some (fst r # fst rs, snd rs)))"

text \<open>
  A consumer draining the buffer: \<^verbatim>\<open>while (cb.read(&packet)) out.push_back(packet);\<close>.
  The result is the packets read, in order, the final content of \<^verbatim>\<open>packet\<close> and
  the buffer afterwards.
\<close>

function drain :: "CircularBuffer \<Rightarrow> DataPacket \<Rightarrow> (DataPacket list \<times> DataPacket \<times> CircularBuffer) option" where
  "drain b packet =
     (case read b packet of
        None \<Rightarrow> None
      | Some r \<Rightarrow>
          if fst r then
            (case drain (snd (snd r)) (fst (snd r)) of
               None \<Rightarrow> None
             | Some rs \<Rightarrow> Some (fst (snd r) # fst rs, snd rs))
          else Some ([], snd r))"
  by pat_completeness auto
termination
proof (relation "measure (\<lambda>(b, packet). unat (count b))")
  show "wf (measure (\<lambda>(b, packet). unat (count b)))"
    by simp
next
  fix b packet r
  assume r: "read b packet = Some r" and ok: "fst r"
  from r ok have pos: "0 < count b" and c: "count (snd (snd r)) = count b - 1"
    by (auto simp: read_def Let_def split: if_splits option.splits)
  from pos have "unat (count b - 1) < unat (count b)"
    by (simp add: unat_minus_one word_neq_0_conv [symmetric] unat_gt_0)
  with c show "((snd (snd r), fst (snd r)), (b, packet)) \<in> measure (\<lambda>(b, packet). unat (count b))"
    by simp
qed

declare drain.simps [simp del]

section \<open>The state invariant and the stored records\<close>

text \<open>
  The invariant of the class: there is at least one slot, the array has
  \<^verbatim>\<open>bufferSize\<close> slots, \<^verbatim>\<open>head\<close> and \<^verbatim>\<open>tail\<close> are below \<^verbatim>\<open>bufferSize\<close>,
  \<^verbatim>\<open>count\<close> is at most \<^verbatim>\<open>bufferSize\<close>, and \<^verbatim>\<open>head\<close> is \<^verbatim>\<open>count\<close> slots after
  \<^verbatim>\<open>tail\<close>, modulo \<^verbatim>\<open>bufferSize\<close>.
\<close>

definition cb_inv :: "CircularBuffer \<Rightarrow> bool" where
  "cb_inv b \<longleftrightarrow>
     0 < bufferSize b \<and> length (buffer b) = unat (bufferSize b) \<and>
     head b < bufferSize b \<and> tail b < bufferSize b \<and> count b \<le> bufferSize b \<and>
     unat (head b) = (unat (tail b) + unat (count b)) mod unat (bufferSize b)"

text \<open>
  The records the buffer holds, oldest first: the \<^verbatim>\<open>count\<close> slots from \<^verbatim>\<open>tail\<close>
  on, modulo \<^verbatim>\<open>bufferSize\<close>.
\<close>

definition stored :: "CircularBuffer \<Rightarrow> DataPacket list" where
  "stored b =
     map (\<lambda>i. buffer b ! ((unat (tail b) + i) mod unat (bufferSize b))) [0..<unat (count b)]"

text \<open>
  The part of \<^verbatim>\<open>write\<close> that every call performs: the store into
  \<^verbatim>\<open>buffer[head]\<close>, the new \<^verbatim>\<open>head\<close> and \<^verbatim>\<open>ID++\<close>.
\<close>

definition put :: "CircularBuffer \<Rightarrow> 16 word \<Rightarrow> 32 word \<Rightarrow> CircularBuffer" where
  "put b val time =
     b\<lparr>buffer := (buffer b)[unat (head b) := \<lparr>id_pkt = ID b, timestamp = time, value_pkt = val\<rparr>],
       head := word_of_nat ((unat (head b) + 1) mod unat (bufferSize b)),
       ID := ID b + 1\<rparr>"

text \<open>\<open>n\<close> slots of an array of \<open>c\<close> slots, from slot \<open>t\<close> on, wrapping around.\<close>

definition ring_slice :: "nat \<Rightarrow> nat \<Rightarrow> nat \<Rightarrow> 'a list \<Rightarrow> 'a list" where
  "ring_slice c t n xs = map (\<lambda>i. xs ! ((t + i) mod c)) [0..<n]"

text \<open>A consumer polling \<^verbatim>\<open>available()\<close> \<open>n\<close> times in a row: the answers, in order.\<close>

fun available_times :: "nat \<Rightarrow> CircularBuffer \<Rightarrow> 16 word list \<times> CircularBuffer" where
  "available_times 0 b = ([], b)"
| "available_times (Suc n) b =
     (let r = available b; rs = available_times n (snd r) in (fst r # fst rs, snd rs))"

section \<open>Concrete states\<close>

definition zero_packet :: DataPacket where
  "zero_packet = \<lparr>id_pkt = 0, timestamp = 0, value_pkt = 0\<rparr>"

text \<open>A heap that hands back zeroed slots.\<close>

definition zero_heap :: heap_reply where
  "zero_heap = Storage (\<lambda>i. zero_packet)"

text \<open>A buffer of two slots after one \<^verbatim>\<open>write(7, 100)\<close>.\<close>

definition demo_buffer :: CircularBuffer where
  "demo_buffer =
     \<lparr>buffer = [\<lparr>id_pkt = 0, timestamp = 100, value_pkt = 7\<rparr>, zero_packet],
      bufferSize = 2, head = 1, tail = 0, count = 1, ID = 1\<rparr>"

text \<open>A buffer of two slots as the constructor leaves it on \<open>zero_heap\<close>.\<close>

definition fresh_buffer :: CircularBuffer where
  "fresh_buffer =
     \<lparr>buffer = [zero_packet, zero_packet],
      bufferSize = 2, head = 0, tail = 0, count = 0, ID = 0\<rparr>"

text \<open>
  The records that a run of \<^verbatim>\<open>write\<close> calls creates from the samples
  \<open>(val, time)\<close> of a list when \<^verbatim>\<open>ID\<close> is \<open>i\<close> before the first call.
\<close>

fun records :: "32 word \<Rightarrow> (16 word \<times> 32 word) list \<Rightarrow> DataPacket list" where
  "records i [] = []"
| "records i (x # xs) = \<lparr>id_pkt = i, timestamp = snd x, value_pkt = fst x\<rparr> # records (i + 1) xs"

text \<open>
  A buffer of two slots after \<open>k\<close> rounds of \<^verbatim>\<open>write(0, 0)\<close> followed by
  \<^verbatim>\<open>read\<close>, starting from \<open>fresh_buffer\<close>: it is empty again, and the two slots
  hold the records of the last two rounds.
\<close>

definition sample_zero :: "nat \<Rightarrow> DataPacket" where
  "sample_zero j = \<lparr>id_pkt = word_of_nat j, timestamp = 0, value_pkt = 0\<rparr>"

definition after_pairs :: "nat \<Rightarrow> CircularBuffer" where
  "after_pairs k =
     \<lparr>buffer = (if even k then [sample_zero (k - 2), sample_zero (k - 1)]
                else [sample_zero (k - 1), sample_zero (k - 2)]),
      bufferSize = 2, head = word_of_nat (k mod 2), tail = word_of_nat (k mod 2),
      count = 0, ID = word_of_nat k\<rparr>"

text \<open>
  That buffer after \<open>2^32 - 1\<close> rounds, the same buffer after two more writes,
  \<^verbatim>\<open>write(1, 10)\<close> and \<^verbatim>\<open>write(2, 20)\<close>, and after two reads then.
\<close>

definition wrap_buffer :: CircularBuffer where
  "wrap_buffer =
     \<lparr>buffer = [\<lparr>id_pkt = 0xFFFFFFFE, timestamp = 0, value_pkt = 0\<rparr>,
                \<lparr>id_pkt = 0xFFFFFFFD, timestamp = 0, value_pkt = 0\<rparr>],
      bufferSize = 2, head = 1, tail = 1, count = 0, ID = 0xFFFFFFFF\<rparr>"

definition wrap_buffer_full :: CircularBuffer where
  "wrap_buffer_full =
     \<lparr>buffer = [\<lparr>id_pkt = 0, timestamp = 20, value_pkt = 2\<rparr>,
                \<lparr>id_pkt = 0xFFFFFFFF, timestamp = 10, value_pkt = 1\<rparr>],
      bufferSize = 2, head = 1, tail = 1, count = 2, ID = 1\<rparr>"

definition wrap_buffer_drained :: CircularBuffer where
  "wrap_buffer_drained =
     \<lparr>buffer = [\<lparr>id_pkt = 0, timestamp = 20, value_pkt = 2\<rparr>,
                \<lparr>id_pkt = 0xFFFFFFFF, timestamp = 10, value_pkt = 1\<rparr>],
      bufferSize = 2, head = 1, tail = 1, count = 0, ID = 1\<rparr>"

section \<open>Machine arithmetic\<close>

lemma unat_wrap16:
  assumes "0 < unat (c :: 16 word)"
  shows "unat (word_of_nat (n mod unat c) :: 16 word) = n mod unat c"
proof -
  have "n mod unat c \<le> unat c" using assms by (simp add: less_imp_le)
  then show ?thesis by (rule le_unat_uoi)
qed

text \<open>The invariant read through \<open>unat\<close>.\<close>

lemma cb_inv_nat:
  "cb_inv b \<longleftrightarrow> 0 < unat (bufferSize b) \<and> length (buffer b) = unat (bufferSize b) \<and>
     unat (head b) < unat (bufferSize b) \<and> unat (tail b) < unat (bufferSize b) \<and>
     unat (count b) \<le> unat (bufferSize b) \<and>
     unat (head b) = (unat (tail b) + unat (count b)) mod unat (bufferSize b)"
  by (simp add: cb_inv_def word_less_nat_alt word_le_nat_alt)

lemma unat_succ_lt:
  "(x :: 16 word) < c \<Longrightarrow> unat (x + 1) = Suc (unat x)"
proof -
  assume "x < c"
  then have "unat x < unat c" by (simp add: word_less_nat_alt)
  moreover have "unat c < 2 ^ 16" using unsigned_less [of c] by simp
  ultimately have "unat x + unat (1 :: 16 word) < 2 ^ LENGTH(16)" by simp
  then have "unat (x + 1) = unat x + unat (1 :: 16 word)" by (simp only: unat_add_lem)
  then show ?thesis by simp
qed

lemma unat_pred_pos:
  "0 < (x :: 16 word) \<Longrightarrow> unat (x - 1) = unat x - 1"
  by (simp add: unat_minus_one word_neq_0_conv [symmetric])


section \<open>What each operation does on a buffer that satisfies the invariant\<close>

lemma cb_inv_nonzero: "cb_inv b \<Longrightarrow> bufferSize b \<noteq> 0"
  by (auto simp: cb_inv_def)

lemma write_cb_not_full:
  assumes "cb_inv b" "count b < bufferSize b"
  shows "write_cb b v t = Some (False, (put b v t)\<lparr>count := count b + 1\<rparr>)"
  using assms cb_inv_nonzero [OF assms(1)] by (simp add: write_cb_def advance_def cb_inv_nat Let_def put_def)

lemma write_cb_full:
  assumes "cb_inv b" "\<not> count b < bufferSize b"
  shows "write_cb b v t = Some (True, (put b v t)\<lparr>tail := word_of_nat ((unat (tail b) + 1) mod unat (bufferSize b))\<rparr>)"
  using assms cb_inv_nonzero [OF assms(1)] by (simp add: write_cb_def advance_def cb_inv_nat Let_def put_def)

lemma read_nonempty:
  assumes "cb_inv b" "0 < count b"
  shows "read b p = Some (True, buffer b ! unat (tail b),
           b\<lparr>tail := word_of_nat ((unat (tail b) + 1) mod unat (bufferSize b)), count := count b - 1\<rparr>)"
  using assms cb_inv_nonzero [OF assms(1)] by (simp add: read_def advance_def cb_inv_nat Let_def)

lemma cb_inv_write_not_full:
  assumes "cb_inv b" "count b < bufferSize b"
  shows "cb_inv ((put b v t)\<lparr>count := count b + 1\<rparr>)"
proof -
  from assms have c: "0 < unat (bufferSize b)" by (simp add: cb_inv_nat)
  have n: "unat (count b + 1) = Suc (unat (count b))" using assms(2) by (rule unat_succ_lt)
  have lt: "unat (count b) < unat (bufferSize b)" using assms(2) by (simp add: word_less_nat_alt)
  show ?thesis using assms(1) c n lt
    by (simp add: cb_inv_nat put_def unat_wrap16 mod_Suc_eq)
qed

lemma cb_inv_write_full:
  assumes "cb_inv b" "\<not> count b < bufferSize b"
  shows "cb_inv ((put b v t)\<lparr>tail := word_of_nat ((unat (tail b) + 1) mod unat (bufferSize b))\<rparr>)"
proof -
  from assms have c: "0 < unat (bufferSize b)" by (simp add: cb_inv_nat)
  from assms have n: "unat (count b) = unat (bufferSize b)"
    by (simp add: cb_inv_nat word_less_nat_alt)
  show ?thesis using assms(1) c n
    by (simp add: cb_inv_nat put_def unat_wrap16)
qed

lemma cb_inv_read:
  assumes "cb_inv b" "0 < count b"
  shows "cb_inv (b\<lparr>tail := word_of_nat ((unat (tail b) + 1) mod unat (bufferSize b)), count := count b - 1\<rparr>)"
proof -
  from assms have c: "0 < unat (bufferSize b)" by (simp add: cb_inv_nat)
  have n: "unat (count b - 1) = unat (count b) - 1" using assms(2) by (rule unat_pred_pos)
  have pos: "0 < unat (count b)" using assms(2) by (simp add: word_less_nat_alt)
  have "(Suc (unat (tail b)) mod unat (bufferSize b) + (unat (count b) - 1)) mod unat (bufferSize b)
        = (Suc (unat (tail b)) + (unat (count b) - 1)) mod unat (bufferSize b)"
    by (simp add: mod_add_left_eq)
  also have "Suc (unat (tail b)) + (unat (count b) - 1) = unat (tail b) + unat (count b)"
    using pos by simp
  finally have m: "(Suc (unat (tail b)) mod unat (bufferSize b) + (unat (count b) - 1)) mod unat (bufferSize b)
        = (unat (tail b) + unat (count b)) mod unat (bufferSize b)" .
  have le: "unat (count b) - 1 \<le> unat (bufferSize b)"
    using assms(1) unfolding cb_inv_nat by arith
  show ?thesis using assms(1) c le m
    by (simp add: cb_inv_nat unat_wrap16 n)
qed


section \<open>The stored records under each operation\<close>

lemma stored_ring: "stored b = ring_slice (unat (bufferSize b)) (unat (tail b)) (unat (count b)) (buffer b)"
  by (simp add: stored_def ring_slice_def)

lemma ring_distinct:
  assumes "i < n" "n < c + i"
  shows "(t + i) mod c \<noteq> (t + n) mod (c::nat)"
proof
  assume "(t + i) mod c = (t + n) mod c"
  then have "(t + n) mod c = (t + i) mod c" by simp
  moreover have "t + i \<le> t + n" using assms by simp
  ultimately have "c dvd (t + n) - (t + i)" by (simp only: mod_eq_dvd_iff_nat)
  then have "c dvd n - i" by simp
  moreover have "0 < n - i" "n - i < c" using assms by simp_all
  ultimately show False by (simp add: nat_dvd_not_less)
qed

lemma ring_slice_snoc:
  assumes "0 < c" "n < c" "length xs = c"
  shows "ring_slice c t (Suc n) (xs[(t + n) mod c := r]) = ring_slice c t n xs @ [r]"
proof -
  have "\<And>i. i < n \<Longrightarrow> xs[(t + n) mod c := r] ! ((t + i) mod c) = xs ! ((t + i) mod c)"
  proof -
    fix i assume "i < n"
    then have "(t + i) mod c \<noteq> (t + n) mod c" using assms(2) by (intro ring_distinct) simp_all
    then show "xs[(t + n) mod c := r] ! ((t + i) mod c) = xs ! ((t + i) mod c)" by simp
  qed
  then have "map (\<lambda>i. xs[(t + n) mod c := r] ! ((t + i) mod c)) [0..<n]
             = map (\<lambda>i. xs ! ((t + i) mod c)) [0..<n]"
    by simp
  moreover have "xs[(t + n) mod c := r] ! ((t + n) mod c) = r"
    using assms by simp
  ultimately show ?thesis by (simp add: ring_slice_def)
qed

lemma ring_slice_Cons:
  assumes "0 < n"
  shows "ring_slice c t n xs = xs ! (t mod c) # ring_slice c (Suc t mod c) (n - 1) xs"
proof -
  obtain m where n: "n = Suc m" using assms by (cases n) auto
  have "[0..<Suc m] = 0 # map Suc [0..<m]"
    by (simp add: upt_conv_Cons map_Suc_upt del: upt_Suc)
  then have "ring_slice c t (Suc m) xs = xs ! (t mod c) # map (\<lambda>i. xs ! ((t + Suc i) mod c)) [0..<m]"
    by (simp add: ring_slice_def comp_def del: upt_Suc)
  moreover have "\<And>i. (Suc t mod c + i) mod c = (t + Suc i) mod c"
    by (simp add: mod_add_left_eq)
  ultimately show ?thesis by (simp add: n ring_slice_def)
qed

lemma ring_slice_update_outside:
  assumes "n < c" "t < c"
  shows "ring_slice c (Suc t mod c) n (xs[t := r]) = ring_slice c (Suc t mod c) n xs"
proof -
  have "\<And>i. i < n \<Longrightarrow> t \<noteq> (Suc t mod c + i) mod c"
  proof -
    fix i assume i: "i < n"
    have "(Suc t mod c + i) mod c = (t + Suc i) mod c" by (simp add: mod_add_left_eq)
    moreover have "(t + 0) mod c \<noteq> (t + Suc i) mod c"
      using i assms(1) by (intro ring_distinct) simp_all
    ultimately show "t \<noteq> (Suc t mod c + i) mod c" using assms(2) by simp
  qed
  then show ?thesis by (auto simp: ring_slice_def)
qed

lemma ring_slice_overwrite:
  assumes "0 < c" "t < c" "length xs = c"
  shows "ring_slice c (Suc t mod c) c (xs[t := r]) = tl (ring_slice c t c xs) @ [r]"
proof -
  obtain m where c: "c = Suc m" using assms(1) by (cases c) auto
  have last: "(Suc t mod c + m) mod c = t"
  proof -
    have "(Suc t mod c + m) mod c = (t + c) mod c" by (simp add: mod_add_left_eq c)
    then show ?thesis using assms(2) by simp
  qed
  have "ring_slice c (Suc t mod c) (Suc m) (xs[t := r])
        = ring_slice c (Suc t mod c) m (xs[t := r]) @ [xs[t := r] ! t]"
    by (simp add: ring_slice_def last)
  also have "xs[t := r] ! t = r" using assms by simp
  also have "ring_slice c (Suc t mod c) m (xs[t := r]) = ring_slice c (Suc t mod c) m xs"
    using assms(2) by (intro ring_slice_update_outside) (simp_all add: c)
  also have "\<dots> = tl (ring_slice c t c xs)"
    using ring_slice_Cons [of c c t xs] assms(1) by (simp add: c)
  finally show ?thesis by (simp add: c)
qed


lemma stored_write_not_full:
  assumes "cb_inv b" "count b < bufferSize b"
  shows "stored ((put b v t)\<lparr>count := count b + 1\<rparr>)
         = stored b @ [\<lparr>id_pkt = ID b, timestamp = t, value_pkt = v\<rparr>]"
proof -
  from assms have c: "0 < unat (bufferSize b)" and len: "length (buffer b) = unat (bufferSize b)"
    and h: "unat (head b) = (unat (tail b) + unat (count b)) mod unat (bufferSize b)"
    by (simp_all add: cb_inv_nat)
  have n: "unat (count b + 1) = Suc (unat (count b))" using assms(2) by (rule unat_succ_lt)
  have lt: "unat (count b) < unat (bufferSize b)" using assms(2) by (simp add: word_less_nat_alt)
  show ?thesis
    using ring_slice_snoc [OF c lt len, of "unat (tail b)"]
    by (simp add: stored_ring put_def n h)
qed

lemma stored_write_full:
  assumes "cb_inv b" "\<not> count b < bufferSize b"
  shows "stored ((put b v t)\<lparr>tail := word_of_nat ((unat (tail b) + 1) mod unat (bufferSize b))\<rparr>)
         = tl (stored b) @ [\<lparr>id_pkt = ID b, timestamp = t, value_pkt = v\<rparr>]"
proof -
  from assms have c: "0 < unat (bufferSize b)" and len: "length (buffer b) = unat (bufferSize b)"
    and h: "unat (head b) = (unat (tail b) + unat (count b)) mod unat (bufferSize b)"
    and t: "unat (tail b) < unat (bufferSize b)"
    by (simp_all add: cb_inv_nat)
  from assms have n: "unat (count b) = unat (bufferSize b)"
    by (simp add: cb_inv_nat word_less_nat_alt)
  have ht: "unat (head b) = unat (tail b)" using h t by (simp add: n)
  show ?thesis
    using ring_slice_overwrite [OF c t len]
    by (simp add: stored_ring put_def n ht unat_wrap16 [OF c])
qed

lemma stored_read:
  assumes "cb_inv b" "0 < count b"
  shows "stored b = buffer b ! unat (tail b)
           # stored (b\<lparr>tail := word_of_nat ((unat (tail b) + 1) mod unat (bufferSize b)),
                        count := count b - 1\<rparr>)"
proof -
  from assms have c: "0 < unat (bufferSize b)" and t: "unat (tail b) < unat (bufferSize b)"
    by (simp_all add: cb_inv_nat)
  have n: "unat (count b - 1) = unat (count b) - 1" using assms(2) by (rule unat_pred_pos)
  have pos: "0 < unat (count b)" using assms(2) by (simp add: word_less_nat_alt)
  show ?thesis
    using ring_slice_Cons [OF pos, of "unat (bufferSize b)" "unat (tail b)" "buffer b"] t
    by (simp add: stored_ring n unat_wrap16 [OF c])
qed

lemma ctor_Storage:
  "CircularBuffer_ctor (Storage g) n =
     Inr \<lparr>buffer = map g [0..<unat n], bufferSize = n, head = 0, tail = 0, count = 0, ID = 0\<rparr>"
  by (simp add: CircularBuffer_ctor_def new_array_def)

lemma drain_count:
  "drain b p = Some (ps, q, b') \<Longrightarrow> count b' = 0"
proof (induction b p arbitrary: ps q b' rule: drain.induct)
  case (1 b packet)
  from "1.prems" obtain r where r: "read b packet = Some r"
    by (subst (asm) drain.simps) (auto split: option.splits)
  show ?case
  proof (cases "fst r")
    case True
    with r "1.prems" obtain rs where rs: "drain (snd (snd r)) (fst (snd r)) = Some rs"
      and b': "b' = snd (snd rs)"
      by (subst (asm) drain.simps) (auto split: option.splits)
    obtain ps' q' b'' where "rs = (ps', q', b'')" by (cases rs) auto
    with "1.IH" [OF r True, of ps' q' b''] rs b' show ?thesis by simp
  next
    case False
    with r "1.prems" have "b' = snd (snd r)"
      by (subst (asm) drain.simps) auto
    moreover from r False have "count (snd (snd r)) = 0"
      by (auto simp: read_def Let_def word_neq_0_conv [symmetric] split: if_splits option.splits)
    ultimately show ?thesis by simp
  qed
qed

lemma cb_inv_demo: "cb_inv demo_buffer"
  by (simp add: cb_inv_def demo_buffer_def)

section \<open>Sequences of calls\<close>

lemma cb_inv_ctor:
  assumes "0 < n"
  shows "cb_inv \<lparr>buffer = map g [0..<unat n], bufferSize = n, head = 0, tail = 0, count = 0, ID = 0\<rparr>"
  using assms by (simp add: cb_inv_def)

lemma exec_inv:
  assumes "cb_inv b"
  shows "\<exists>b'. exec b x = Some b' \<and> cb_inv b' \<and> bufferSize b' = bufferSize b \<and>
           ID b' = ID b + word_of_nat (writes_in [x])"
proof (cases x)
  case (Write v t)
  show ?thesis
  proof (cases "count b < bufferSize b")
    case True
    show ?thesis
      using write_cb_not_full [OF assms True, of v t] cb_inv_write_not_full [OF assms True, of v t]
      by (simp add: Write put_def)
  next
    case False
    show ?thesis
      using write_cb_full [OF assms False, of v t] cb_inv_write_full [OF assms False, of v t]
      by (simp add: Write put_def)
  qed
next
  case (Read p)
  show ?thesis
  proof (cases "0 < count b")
    case True
    show ?thesis
      using read_nonempty [OF assms True, of p] cb_inv_read [OF assms True]
      by (simp add: Read)
  next
    case False
    then have "read b p = Some (False, p, b)" by (simp add: read_def)
    then show ?thesis using assms by (simp add: Read)
  qed
qed

lemma run_inv:
  assumes "cb_inv b"
  shows "\<exists>b'. run b xs = Some b' \<and> cb_inv b' \<and> bufferSize b' = bufferSize b \<and>
           ID b' = ID b + word_of_nat (writes_in xs)"
  using assms
proof (induction xs arbitrary: b)
  case Nil
  then show ?case by simp
next
  case (Cons x xs)
  from exec_inv [OF Cons.prems, of x] obtain b1 where
    e: "exec b x = Some b1" and i: "cb_inv b1" and s: "bufferSize b1 = bufferSize b"
    and d: "ID b1 = ID b + word_of_nat (writes_in [x])"
    by blast
  from Cons.IH [OF i] obtain b2 where
    r: "run b1 xs = Some b2" and i2: "cb_inv b2" and s2: "bufferSize b2 = bufferSize b1"
    and d2: "ID b2 = ID b1 + word_of_nat (writes_in xs)"
    by blast
  have "writes_in (x # xs) = writes_in [x] + writes_in xs" by (cases x) simp_all
  then have "ID b2 = ID b + word_of_nat (writes_in (x # xs))" using d d2 by simp
  then show ?case using e r i2 s s2 by simp
qed

lemma exec_Write: "write_cb b v t = Some (ov, b') \<Longrightarrow> exec b (Write v t) = Some b'"
  by simp

lemma exec_Read: "read b p = Some (ok, out, b') \<Longrightarrow> exec b (Read p) = Some b'"
  by simp

lemma write_cb_store:
  assumes "cb_inv b"
  shows "\<exists>ov b'. write_cb b v t = Some (ov, b') \<and>
           buffer b' = (buffer b)[unat (head b) := \<lparr>id_pkt = ID b, timestamp = t, value_pkt = v\<rparr>] \<and>
           ID b' = ID b + 1"
proof (cases "count b < bufferSize b")
  case True
  show ?thesis using write_cb_not_full [OF assms True, of v t] by (auto simp: put_def)
next
  case False
  show ?thesis using write_cb_full [OF assms False, of v t] by (auto simp: put_def)
qed

lemma writes_in_replicate: "writes_in (replicate m (Write v t)) = m"
  by (induction m) simp_all

lemma records_samples: "map (\<lambda>r. (value_pkt r, timestamp r)) (records i xs) = xs"
  by (induction xs arbitrary: i) simp_all

lemma records_ids: "map id_pkt (records i xs) = map (\<lambda>k. i + word_of_nat k) [0..<length xs]"
proof (induction xs arbitrary: i)
  case Nil
  then show ?case by simp
next
  case (Cons x xs)
  have "[0..<Suc (length xs)] = 0 # map Suc [0..<length xs]"
    by (simp add: upt_conv_Cons map_Suc_upt del: upt_Suc)
  then show ?case using Cons.IH [of "i + 1"]
    by (simp add: comp_def add.assoc del: upt_Suc)
qed

lemma unat_id_offset: "unat (i + word_of_nat k :: 32 word) = (unat i + k) mod 2 ^ 32"
  by (simp add: unat_word_ariths unat_of_nat mod_simps)

lemma ids_sorted_iff:
  assumes "n < 2 ^ 32"
  shows "sorted_wrt (<) (map (\<lambda>k. i + word_of_nat k :: 32 word) [0..<n]) \<longleftrightarrow> unat i + n \<le> 2 ^ 32"
proof
  assume le: "unat i + n \<le> 2 ^ 32"
  show "sorted_wrt (<) (map (\<lambda>k. i + word_of_nat k :: 32 word) [0..<n])"
  proof (simp only: sorted_wrt_iff_nth_less length_map length_upt, intro allI impI)
    fix j k assume jk: "j < k" and k: "k < n - 0"
    then have "unat i + j < 2 ^ 32" "unat i + k < 2 ^ 32" using le by simp_all
    then have "unat (i + word_of_nat j) < unat (i + word_of_nat k)"
      using jk by (simp add: unat_id_offset)
    then show "map (\<lambda>k. i + word_of_nat k) [0..<n] ! j < map (\<lambda>k. i + word_of_nat k) [0..<n] ! k"
      using jk k by (simp add: word_less_nat_alt)
  qed
next
  assume s: "sorted_wrt (<) (map (\<lambda>k. i + word_of_nat k :: 32 word) [0..<n])"
  show "unat i + n \<le> 2 ^ 32"
  proof (rule ccontr)
    assume "\<not> unat i + n \<le> 2 ^ 32"
    then have gt: "2 ^ 32 < unat i + n" by simp
    have ui: "unat i < 2 ^ 32" using unsigned_less [of i] by simp
    define k where "k = 2 ^ 32 - unat i"
    have k: "0 < k" "k < n" "unat i + k = 2 ^ 32" using gt ui by (simp_all add: k_def)
    from s have "\<forall>a b. a < b \<longrightarrow> b < n \<longrightarrow>
        map (\<lambda>k. i + word_of_nat k) [0..<n] ! a < map (\<lambda>k. i + word_of_nat k) [0..<n] ! b"
      by (simp add: sorted_wrt_iff_nth_less)
    then have "map (\<lambda>k. i + word_of_nat k) [0..<n] ! (k - 1) < map (\<lambda>k. i + word_of_nat k) [0..<n] ! k"
      using k by simp
    then have "i + word_of_nat (k - 1) < i + word_of_nat k" using k by simp
    then have "unat (i + word_of_nat (k - 1)) < unat (i + word_of_nat k)"
      by (simp add: word_less_nat_alt)
    moreover have "unat (i + word_of_nat k) = 0" using k by (simp add: unat_id_offset)
    ultimately show False by simp
  qed
qed

lemma write_all_fits:
  assumes "cb_inv b" "unat (count b) + length xs \<le> unat (bufferSize b)"
  shows "\<exists>b'. write_all b xs = Some (replicate (length xs) False, b') \<and> cb_inv b' \<and>
           stored b' = stored b @ records (ID b) xs \<and>
           unat (count b') = unat (count b) + length xs \<and> bufferSize b' = bufferSize b"
  using assms
proof (induction xs arbitrary: b)
  case Nil
  then show ?case by simp
next
  case (Cons x xs)
  from Cons.prems(2) have lt: "count b < bufferSize b" by (simp add: word_less_nat_alt)
  let ?b1 = "(put b (fst x) (snd x))\<lparr>count := count b + 1\<rparr>"
  have w: "write_cb b (fst x) (snd x) = Some (False, ?b1)"
    using Cons.prems(1) lt by (rule write_cb_not_full)
  have i1: "cb_inv ?b1" using Cons.prems(1) lt by (rule cb_inv_write_not_full)
  have s1: "stored ?b1 = stored b @ [\<lparr>id_pkt = ID b, timestamp = snd x, value_pkt = fst x\<rparr>]"
    using Cons.prems(1) lt by (rule stored_write_not_full)
  have n1: "unat (count ?b1) = Suc (unat (count b))" using unat_succ_lt [OF lt] by simp
  have z1: "bufferSize ?b1 = bufferSize b" "ID ?b1 = ID b + 1" by (simp_all add: put_def)
  have "unat (count ?b1) + length xs \<le> unat (bufferSize ?b1)"
    using Cons.prems(2) n1 z1 by simp
  from Cons.IH [OF i1 this] obtain b' where
    "write_all ?b1 xs = Some (replicate (length xs) False, b')" "cb_inv b'"
    "stored b' = stored ?b1 @ records (ID ?b1) xs"
    "unat (count b') = unat (count ?b1) + length xs" "bufferSize b' = bufferSize ?b1"
    by blast
  then show ?case using w s1 n1 z1 by simp
qed

lemma drain_stored:
  assumes "cb_inv b"
  shows "\<exists>q b'. drain b p = Some (stored b, q, b') \<and> count b' = 0 \<and> cb_inv b'"
  using assms
proof (induction "unat (count b)" arbitrary: b p)
  case 0
  then have z: "count b = 0" by (simp add: unat_eq_0)
  then have "read b p = Some (False, p, b)" by (simp add: read_def)
  then have "drain b p = Some ([], p, b)" by (subst drain.simps) simp
  moreover have "stored b = []" using z by (simp add: stored_def)
  ultimately show ?case using z "0.prems" by simp
next
  case (Suc n)
  then have pos: "0 < count b" by (simp add: word_less_nat_alt)
  define b1 where
    "b1 = b\<lparr>tail := word_of_nat ((unat (tail b) + 1) mod unat (bufferSize b)), count := count b - 1\<rparr>"
  have r: "read b p = Some (True, buffer b ! unat (tail b), b1)"
    unfolding b1_def using Suc.prems pos by (rule read_nonempty)
  have i1: "cb_inv b1" unfolding b1_def using Suc.prems pos by (rule cb_inv_read)
  have s: "stored b = buffer b ! unat (tail b) # stored b1"
    unfolding b1_def using Suc.prems pos by (rule stored_read)
  have "n = unat (count b1)" using Suc.hyps(2) unat_pred_pos [OF pos] by (simp add: b1_def)
  from Suc.hyps(1) [OF this i1, of "buffer b ! unat (tail b)"] obtain q b' where
    d: "drain b1 (buffer b ! unat (tail b)) = Some (stored b1, q, b')" "count b' = 0" "cb_inv b'"
    by blast
  have "drain b p = Some (buffer b ! unat (tail b) # stored b1, q, b')"
    by (subst drain.simps) (simp add: r d)
  then show ?case using s d by simp
qed

section \<open>Reaching the wrap of the packet counter\<close>

lemma after_pairs_step:
  "\<exists>b1. exec (after_pairs k) (Write 0 0) = Some b1 \<and>
        exec b1 (Read zero_packet) = Some (after_pairs (Suc k))"
proof (cases "even k")
  case True
  then have m: "k mod 2 = 0" "Suc k mod 2 = 1" by presburger+
  define b1 where "b1 = \<lparr>buffer = [sample_zero k, sample_zero (k - 1)], bufferSize = 2,
                          head = 1, tail = 0, count = 1, ID = word_of_nat k + 1\<rparr>"
  have "write_cb (after_pairs k) 0 0 = Some (False, b1)"
    using True by (simp add: write_cb_def advance_def after_pairs_def m sample_zero_def b1_def)
  moreover have "read b1 zero_packet = Some (True, sample_zero k, after_pairs (Suc k))"
    using True by (simp add: read_def advance_def after_pairs_def m b1_def)
  ultimately show ?thesis by (blast intro: exec_Write exec_Read)
next
  case False
  then have m: "k mod 2 = 1" "Suc k mod 2 = 0" by presburger+
  define b1 where "b1 = \<lparr>buffer = [sample_zero (k - 1), sample_zero k], bufferSize = 2,
                          head = 0, tail = 1, count = 1, ID = word_of_nat k + 1\<rparr>"
  have "write_cb (after_pairs k) 0 0 = Some (False, b1)"
    using False by (simp add: write_cb_def advance_def after_pairs_def m sample_zero_def b1_def)
  moreover have "read b1 zero_packet = Some (True, sample_zero k, after_pairs (Suc k))"
    using False by (simp add: read_def advance_def after_pairs_def m b1_def)
  ultimately show ?thesis by (blast intro: exec_Write exec_Read)
qed

lemma after_pairs_run:
  "run (after_pairs k) (concat (replicate m [Write 0 0, Read zero_packet])) = Some (after_pairs (k + m))"
proof (induction m arbitrary: k)
  case 0
  then show ?case by simp
next
  case (Suc m)
  from after_pairs_step [of k] obtain b1 where
    e1: "exec (after_pairs k) (Write 0 0) = Some b1"
    and e2: "exec b1 (Read zero_packet) = Some (after_pairs (Suc k))"
    by blast
  have "run (after_pairs k) (Write 0 0 # Read zero_packet # concat (replicate m [Write 0 0, Read zero_packet]))
        = run (after_pairs (Suc k)) (concat (replicate m [Write 0 0, Read zero_packet]))"
    by (simp only: run.simps e1 e2 option.case)
  then show ?case using Suc.IH [of "Suc k"] by simp
qed

lemma after_pairs_0: "after_pairs 0 = fresh_buffer"
  by (simp add: after_pairs_def fresh_buffer_def sample_zero_def zero_packet_def)

lemma ctor_fresh_buffer: "CircularBuffer_ctor zero_heap 2 = Inr fresh_buffer"
proof -
  have "[0..<2] = [0, Suc 0]" by (simp add: numeral_2_eq_2)
  then show ?thesis
    by (simp add: ctor_Storage zero_heap_def fresh_buffer_def)
qed

lemma after_pairs_wrap: "after_pairs 4294967295 = wrap_buffer"
  by (simp add: after_pairs_def wrap_buffer_def sample_zero_def)

lemma wrap_buffer_reachable:
  "run fresh_buffer (concat (replicate 4294967295 [Write 0 0, Read zero_packet])) = Some wrap_buffer"
  using after_pairs_run [of 0 4294967295] by (simp only: after_pairs_0 after_pairs_wrap add_0)

lemma cb_inv_fresh: "cb_inv fresh_buffer"
  by (simp add: cb_inv_def fresh_buffer_def)

lemma upt_4: "[0..<4] = [0, 1, 2, 3]"
  by (simp add: eval_nat_numeral)

section \<open>The write path\<close>

text \<open>
  Claim C1. On every buffer that satisfies the class invariant (so its capacity is
  positive), \<^verbatim>\<open>write(value, time)\<close> stores the record
  \<open>{id = ID, timestamp = time, value = value}\<close> in slot \<^verbatim>\<open>head\<close>, advances
  \<^verbatim>\<open>head\<close> to \<open>(head + 1) mod bufferSize\<close> and adds one to \<^verbatim>\<open>ID\<close>. When
  \<^verbatim>\<open>count < bufferSize\<close> before the call, \<^verbatim>\<open>count\<close> grows by one, \<^verbatim>\<open>tail\<close> stays,
  the new record joins the stored ones at the young end and the call returns
  \<open>False\<close>. Otherwise \<^verbatim>\<open>count\<close> stays, \<^verbatim>\<open>tail\<close> advances to
  \<open>(tail + 1) mod bufferSize\<close>, the oldest stored record is gone, the new one is
  the youngest, and the call returns \<open>True\<close>.
\<close>

theorem write_effect:
  assumes "cb_inv b"
  shows "\<exists>overflow b'. write_cb b v t = Some (overflow, b') \<and>
           buffer b' = (buffer b)[unat (head b) := \<lparr>id_pkt = ID b, timestamp = t, value_pkt = v\<rparr>] \<and>
           unat (head b') = (unat (head b) + 1) mod unat (bufferSize b) \<and>
           ID b' = ID b + 1 \<and> bufferSize b' = bufferSize b \<and>
           (if count b < bufferSize b
            then \<not> overflow \<and> unat (count b') = unat (count b) + 1 \<and> tail b' = tail b \<and>
                 stored b' = stored b @ [\<lparr>id_pkt = ID b, timestamp = t, value_pkt = v\<rparr>]
            else overflow \<and> count b' = count b \<and> count b = bufferSize b \<and>
                 unat (tail b') = (unat (tail b) + 1) mod unat (bufferSize b) \<and>
                 stored b' = tl (stored b) @ [\<lparr>id_pkt = ID b, timestamp = t, value_pkt = v\<rparr>])"
proof -
  let ?r = "\<lparr>id_pkt = ID b, timestamp = t, value_pkt = v\<rparr>"
  from assms have c: "0 < unat (bufferSize b)" by (simp add: cb_inv_nat)
  show ?thesis
  proof (cases "count b < bufferSize b")
    case True
    define b' where "b' = (put b v t)\<lparr>count := count b + 1\<rparr>"
    have w: "write_cb b v t = Some (False, b')"
      unfolding b'_def using assms True by (rule write_cb_not_full)
    have s: "stored b' = stored b @ [?r]"
      unfolding b'_def using assms True by (rule stored_write_not_full)
    have n: "unat (count b') = unat (count b) + 1"
      using unat_succ_lt [OF True] by (simp add: b'_def)
    have f: "buffer b' = (buffer b)[unat (head b) := ?r]"
      "unat (head b') = (unat (head b) + 1) mod unat (bufferSize b)"
      "ID b' = ID b + 1" "bufferSize b' = bufferSize b" "tail b' = tail b"
      by (simp_all add: b'_def put_def unat_wrap16 [OF c])
    show ?thesis
      by (rule exI [of _ False], rule exI [of _ b']) (simp add: w s n f True)
  next
    case False
    have full: "count b = bufferSize b"
      using False assms by (simp add: cb_inv_def)
    define b' where
      "b' = (put b v t)\<lparr>tail := word_of_nat ((unat (tail b) + 1) mod unat (bufferSize b))\<rparr>"
    have w: "write_cb b v t = Some (True, b')"
      unfolding b'_def using assms False by (rule write_cb_full)
    have s: "stored b' = tl (stored b) @ [?r]"
      unfolding b'_def using assms False by (rule stored_write_full)
    have f: "buffer b' = (buffer b)[unat (head b) := ?r]"
      "unat (head b') = (unat (head b) + 1) mod unat (bufferSize b)"
      "ID b' = ID b + 1" "bufferSize b' = bufferSize b" "count b' = bufferSize b"
      "unat (tail b') = (unat (tail b) + 1) mod unat (bufferSize b)"
      by (simp_all add: b'_def put_def unat_wrap16 [OF c] full)
    show ?thesis
      by (rule exI [of _ True], rule exI [of _ b']) (simp add: w s f full)
  qed
qed

theorem write_effect_witness:
  "cb_inv demo_buffer \<and>
   (\<exists>b'. write_cb demo_buffer 8 200 = Some (False, b') \<and> ID b' = 2 \<and> head b' = 0 \<and>
      stored b' = [\<lparr>id_pkt = 0, timestamp = 100, value_pkt = 7\<rparr>,
                   \<lparr>id_pkt = 1, timestamp = 200, value_pkt = 8\<rparr>])"
  using write_effect [OF cb_inv_demo, of 8 200] cb_inv_demo
  by (auto simp: demo_buffer_def stored_def unat_eq_0)

section \<open>The read path\<close>

text \<open>
  Claim C2. On every buffer that satisfies the class invariant and has
  \<^verbatim>\<open>count > 0\<close>, \<^verbatim>\<open>read(packet)\<close> copies the record in slot \<^verbatim>\<open>tail\<close> into
  \<^verbatim>\<open>*packet\<close>, advances \<^verbatim>\<open>tail\<close> to \<open>(tail + 1) mod bufferSize\<close>, takes one from
  \<^verbatim>\<open>count\<close> and returns \<open>True\<close>. The record returned is the oldest stored one,
  and the records stored afterwards are exactly the others, in their order: none
  is skipped.
\<close>

theorem read_effect:
  assumes "cb_inv b" "0 < count b"
  shows "\<exists>b'. read b p = Some (True, buffer b ! unat (tail b), b') \<and>
           unat (tail b') = (unat (tail b) + 1) mod unat (bufferSize b) \<and>
           count b' = count b - 1 \<and> unat (count b') = unat (count b) - 1 \<and>
           stored b = buffer b ! unat (tail b) # stored b'"
proof -
  from assms have c: "0 < unat (bufferSize b)" by (simp add: cb_inv_nat)
  have n: "unat (count b - 1) = unat (count b) - 1" using assms(2) by (rule unat_pred_pos)
  show ?thesis
    using read_nonempty [OF assms, of p] stored_read [OF assms]
    by (simp add: n unat_wrap16 [OF c])
qed

theorem read_effect_witness:
  "cb_inv demo_buffer \<and> 0 < count demo_buffer \<and>
   (\<exists>b'. read demo_buffer zero_packet
            = Some (True, \<lparr>id_pkt = 0, timestamp = 100, value_pkt = 7\<rparr>, b') \<and>
      count b' = 0 \<and> stored b' = [])"
proof -
  have pos: "0 < count demo_buffer" by (simp add: demo_buffer_def)
  show ?thesis
    using read_effect [OF cb_inv_demo pos, of zero_packet] cb_inv_demo pos
    by (auto simp: demo_buffer_def stored_def)
qed

text \<open>
  Claim C10. The frame of a successful \<^verbatim>\<open>read\<close>: on every buffer that satisfies
  the class invariant and has \<^verbatim>\<open>count > 0\<close>, the buffer after the call differs
  from the buffer before it in \<^verbatim>\<open>tail\<close> and \<^verbatim>\<open>count\<close> only; \<^verbatim>\<open>head\<close>, \<^verbatim>\<open>ID\<close>,
  \<^verbatim>\<open>bufferSize\<close> and every slot of the array are as before.
\<close>

theorem read_frame:
  assumes "cb_inv b" "0 < count b"
  shows "\<exists>ok out b'. read b p = Some (ok, out, b') \<and>
           head b' = head b \<and> ID b' = ID b \<and> buffer b' = buffer b \<and>
           bufferSize b' = bufferSize b \<and>
           b' = b\<lparr>tail := tail b', count := count b'\<rparr>"
  using read_nonempty [OF assms, of p] by auto



theorem read_frame_witness:
  "cb_inv demo_buffer \<and> 0 < count demo_buffer \<and>
   (\<exists>ok out b'. read demo_buffer zero_packet = Some (ok, out, b') \<and>
      head b' = 1 \<and> ID b' = 1 \<and> bufferSize b' = 2 \<and>
      buffer b' = [\<lparr>id_pkt = 0, timestamp = 100, value_pkt = 7\<rparr>, zero_packet])"
proof -
  have pos: "0 < count demo_buffer" by (simp add: demo_buffer_def)
  show ?thesis
    using read_frame [OF cb_inv_demo pos, of zero_packet] cb_inv_demo pos
    by (auto simp: demo_buffer_def)
qed

text \<open>
  Claim C6. On every buffer with \<^verbatim>\<open>count == 0\<close>, in particular a freshly
  constructed one and one that a consumer has just drained, \<^verbatim>\<open>read(packet)\<close>
  returns \<open>False\<close>, leaves \<^verbatim>\<open>*packet\<close> as it was and leaves the whole buffer
  (array, \<^verbatim>\<open>bufferSize\<close>, \<^verbatim>\<open>head\<close>, \<^verbatim>\<open>tail\<close>, \<^verbatim>\<open>count\<close>, \<^verbatim>\<open>ID\<close>) as it was.
\<close>

theorem read_empty_noop:
  assumes "count b = 0 \<or> (\<exists>g n. CircularBuffer_ctor (Storage g) n = Inr b)
             \<or> (\<exists>b0 p0 ps q. drain b0 p0 = Some (ps, q, b))"
  shows "read b p = Some (False, p, b)"
proof -
  from assms have "count b = 0"
    by (auto simp: ctor_Storage dest: drain_count)
  then show ?thesis by (simp add: read_def)
qed

theorem read_empty_noop_witness:
  "(\<exists>g n. CircularBuffer_ctor (Storage g) n
            = Inr \<lparr>buffer = [zero_packet, zero_packet],
                   bufferSize = 2, head = 0, tail = 0, count = 0, ID = 0\<rparr>) \<and>
   read \<lparr>buffer = [zero_packet, zero_packet],
         bufferSize = 2, head = 0, tail = 0, count = 0, ID = 0\<rparr>
        \<lparr>id_pkt = 5, timestamp = 6, value_pkt = 7\<rparr>
     = Some (False, \<lparr>id_pkt = 5, timestamp = 6, value_pkt = 7\<rparr>,
             \<lparr>buffer = [zero_packet, zero_packet],
              bufferSize = 2, head = 0, tail = 0, count = 0, ID = 0\<rparr>)"
proof -
  have "CircularBuffer_ctor (Storage (\<lambda>i. zero_packet)) 2
          = Inr \<lparr>buffer = [zero_packet, zero_packet],
                 bufferSize = 2, head = 0, tail = 0, count = 0, ID = 0\<rparr>"
  proof -
    have "[0..<2] = [0, Suc 0]" by (simp add: numeral_2_eq_2)
    then show ?thesis by (simp add: ctor_Storage)
  qed
  then have h: "\<exists>g n. CircularBuffer_ctor (Storage g) n
            = Inr \<lparr>buffer = [zero_packet, zero_packet],
                   bufferSize = 2, head = 0, tail = 0, count = 0, ID = 0\<rparr>"
    by blast
  from h have "count \<lparr>buffer = [zero_packet, zero_packet],
                   bufferSize = 2, head = 0, tail = 0, count = 0, ID = 0\<rparr> = 0
      \<or> (\<exists>g n. CircularBuffer_ctor (Storage g) n
            = Inr \<lparr>buffer = [zero_packet, zero_packet],
                   bufferSize = 2, head = 0, tail = 0, count = 0, ID = 0\<rparr>)
      \<or> (\<exists>b0 p0 ps q. drain b0 p0 = Some (ps, q, \<lparr>buffer = [zero_packet, zero_packet],
                   bufferSize = 2, head = 0, tail = 0, count = 0, ID = 0\<rparr>))"
    by blast
  from read_empty_noop [OF this] h show ?thesis by blast
qed

section \<open>The query\<close>

text \<open>
  Claim C8. \<^verbatim>\<open>available()\<close> returns \<^verbatim>\<open>count\<close> and leaves the buffer as it was,
  in every state; called any number of times in a row it gives the same answer
  every time and the buffer is still as it was.
\<close>

theorem available_observational:
  "available b = (count b, b) \<and> available_times n b = (replicate n (count b), b)"
proof
  show a: "available b = (count b, b)" by (simp add: available_def)
  show "available_times n b = (replicate n (count b), b)"
    by (induction n) (simp_all add: a Let_def)
qed

section \<open>The invariant\<close>

text \<open>
  Claim C4. A buffer constructed with a capacity \<open>n > 0\<close> satisfies, after every
  sequence of \<^verbatim>\<open>write\<close> and \<^verbatim>\<open>read\<close> calls (hence after each call of a sequence,
  a prefix being a sequence): every call has a defined result, \<^verbatim>\<open>head\<close> and
  \<^verbatim>\<open>tail\<close> are below \<open>n\<close>, \<^verbatim>\<open>count\<close> is at most \<open>n\<close>,
  \<open>head = (tail + count) mod n\<close>, and \<^verbatim>\<open>available()\<close> returns at most \<open>n\<close>.
\<close>

theorem invariant_always:
  assumes "0 < n"
  shows "\<exists>b0. CircularBuffer_ctor (Storage g) n = Inr b0 \<and>
           (\<forall>ops. \<exists>b. run b0 ops = Some b \<and>
              head b < n \<and> tail b < n \<and> count b \<le> n \<and>
              unat (head b) = (unat (tail b) + unat (count b)) mod unat n \<and>
              fst (available b) \<le> n \<and>
              bufferSize b = n \<and> length (buffer b) = unat n)"
proof -
  let ?b0 = "\<lparr>buffer = map g [0..<unat n], bufferSize = n, head = 0, tail = 0, count = 0, ID = 0\<rparr>"
  have i0: "cb_inv ?b0" using assms by (rule cb_inv_ctor)
  have "\<exists>b. run ?b0 ops = Some b \<and>
              head b < n \<and> tail b < n \<and> count b \<le> n \<and>
              unat (head b) = (unat (tail b) + unat (count b)) mod unat n \<and>
              fst (available b) \<le> n \<and>
              bufferSize b = n \<and> length (buffer b) = unat n" for ops
  proof -
    from run_inv [OF i0, of ops] obtain b where
      r: "run ?b0 ops = Some b" and i: "cb_inv b" and s: "bufferSize b = n"
      by auto
    from i s have "head b < n \<and> tail b < n \<and> count b \<le> n \<and>
              unat (head b) = (unat (tail b) + unat (count b)) mod unat n \<and>
              fst (available b) \<le> n \<and> length (buffer b) = unat n"
      by (simp add: cb_inv_def available_def)
    with r s show ?thesis by blast
  qed
  then show ?thesis by (simp add: ctor_Storage)
qed

theorem invariant_always_witness:
  "0 < (2 :: 16 word) \<and>
   (\<exists>b0. CircularBuffer_ctor zero_heap 2 = Inr b0 \<and>
      (\<forall>ops. \<exists>b. run b0 ops = Some b \<and> head b < 2 \<and> tail b < 2 \<and> count b \<le> 2 \<and>
         unat (head b) = (unat (tail b) + unat (count b)) mod 2 \<and>
         fst (available b) \<le> 2))"
proof -
  have h: "0 < (2 :: 16 word)" by simp
  from invariant_always [OF h, of "\<lambda>i. zero_packet"] obtain b0 where
    c: "CircularBuffer_ctor zero_heap 2 = Inr b0"
    and a: "\<forall>ops. \<exists>b. run b0 ops = Some b \<and>
              head b < 2 \<and> tail b < 2 \<and> count b \<le> 2 \<and>
              unat (head b) = (unat (tail b) + unat (count b)) mod unat (2 :: 16 word) \<and>
              fst (available b) \<le> 2 \<and>
              bufferSize b = 2 \<and> length (buffer b) = unat (2 :: 16 word)"
    unfolding zero_heap_def by blast
  have "\<exists>b. run b0 ops = Some b \<and> head b < 2 \<and> tail b < 2 \<and> count b \<le> 2 \<and>
         unat (head b) = (unat (tail b) + unat (count b)) mod 2 \<and>
         fst (available b) \<le> 2" for ops
    using a [rule_format, of ops] by auto
  with h c show ?thesis by blast
qed

section \<open>The packet counter\<close>

text \<open>
  Claim C9. \<^verbatim>\<open>ID\<close> is an unsigned 32-bit counter. On a buffer constructed with
  a capacity \<open>n > 0\<close>, after any sequence of calls that holds \<open>k\<close> writes, \<^verbatim>\<open>ID\<close>
  is \<open>k mod 2^32\<close>; the next write, the \<open>(k + 1)\<close>-th since construction, has a
  defined result, stores a record whose id is \<open>k mod 2^32\<close>, and leaves \<^verbatim>\<open>ID\<close>
  at \<open>(ID + 1) mod 2^32\<close>, which is 0 when \<^verbatim>\<open>ID\<close> was \<open>2^32 - 1\<close>.
\<close>

theorem id_counter:
  assumes "0 < n"
  shows "\<exists>b0. CircularBuffer_ctor (Storage g) n = Inr b0 \<and>
           (\<forall>ops v t. \<exists>b ov b'. run b0 ops = Some b \<and> write_cb b v t = Some (ov, b') \<and>
              ID b = word_of_nat (writes_in ops) \<and>
              buffer b' ! unat (head b)
                = \<lparr>id_pkt = word_of_nat (writes_in ops), timestamp = t, value_pkt = v\<rparr> \<and>
              unat (id_pkt (buffer b' ! unat (head b))) = writes_in ops mod 2 ^ 32 \<and>
              ID b' = ID b + 1 \<and>
              unat (ID b') = (unat (ID b) + 1) mod 2 ^ 32)"
proof -
  let ?b0 = "\<lparr>buffer = map g [0..<unat n], bufferSize = n, head = 0, tail = 0, count = 0, ID = 0\<rparr>"
  have i0: "cb_inv ?b0" using assms by (rule cb_inv_ctor)
  have "\<exists>b ov b'. run ?b0 ops = Some b \<and> write_cb b v t = Some (ov, b') \<and>
              ID b = word_of_nat (writes_in ops) \<and>
              buffer b' ! unat (head b)
                = \<lparr>id_pkt = word_of_nat (writes_in ops), timestamp = t, value_pkt = v\<rparr> \<and>
              unat (id_pkt (buffer b' ! unat (head b))) = writes_in ops mod 2 ^ 32 \<and>
              ID b' = ID b + 1 \<and>
              unat (ID b') = (unat (ID b) + 1) mod 2 ^ 32" for ops v t
  proof -
    from run_inv [OF i0, of ops] obtain b where
      r: "run ?b0 ops = Some b" and i: "cb_inv b" and d: "ID b = word_of_nat (writes_in ops)"
      by auto
    from i have hl: "unat (head b) < length (buffer b)" by (simp add: cb_inv_nat)
    from write_cb_store [OF i, of v t] obtain ov b' where
      w: "write_cb b v t = Some (ov, b')"
      and bf: "buffer b' = (buffer b)[unat (head b) := \<lparr>id_pkt = ID b, timestamp = t, value_pkt = v\<rparr>]"
      and d': "ID b' = ID b + 1"
      by blast
    have slot: "buffer b' ! unat (head b) = \<lparr>id_pkt = word_of_nat (writes_in ops), timestamp = t, value_pkt = v\<rparr>"
      using bf hl d by simp
    have u: "unat (word_of_nat (writes_in ops) :: 32 word) = writes_in ops mod 2 ^ 32"
      by (simp add: unat_of_nat)
    have u': "unat (ID b + 1) = (unat (ID b) + 1) mod 2 ^ 32"
      by (simp add: unat_word_ariths)
    show ?thesis using r w d slot u u' d' by auto
  qed
  then show ?thesis by (simp add: ctor_Storage)
qed



theorem id_counter_witness:
  "0 < (2 :: 16 word) \<and>
   (\<exists>b0 b ov b'. CircularBuffer_ctor zero_heap 2 = Inr b0 \<and>
      run b0 (replicate 4294967295 (Write 0 0)) = Some b \<and> ID b = 0xFFFFFFFF \<and>
      write_cb b 7 9 = Some (ov, b') \<and>
      id_pkt (buffer b' ! unat (head b)) = 0xFFFFFFFF \<and> ID b' = 0)"
proof -
  have h: "0 < (2 :: 16 word)" by simp
  from id_counter [OF h, of "\<lambda>i. zero_packet"] obtain b0 where
    c: "CircularBuffer_ctor zero_heap 2 = Inr b0"
    and a: "\<forall>ops v t. \<exists>b ov b'. run b0 ops = Some b \<and> write_cb b v t = Some (ov, b') \<and>
              ID b = word_of_nat (writes_in ops) \<and>
              buffer b' ! unat (head b)
                = \<lparr>id_pkt = word_of_nat (writes_in ops), timestamp = t, value_pkt = v\<rparr> \<and>
              unat (id_pkt (buffer b' ! unat (head b))) = writes_in ops mod 2 ^ 32 \<and>
              ID b' = ID b + 1 \<and>
              unat (ID b') = (unat (ID b) + 1) mod 2 ^ 32"
    unfolding zero_heap_def by blast
  from a [rule_format, of "replicate 4294967295 (Write 0 0)" 7 9] obtain b ov b' where
    r: "run b0 (replicate 4294967295 (Write 0 0)) = Some b" and w: "write_cb b 7 9 = Some (ov, b')"
    and d: "ID b = word_of_nat (writes_in (replicate 4294967295 (Write 0 0)))"
    and s: "buffer b' ! unat (head b)
              = \<lparr>id_pkt = word_of_nat (writes_in (replicate 4294967295 (Write 0 0))),
                 timestamp = 9, value_pkt = 7\<rparr>"
    and d': "ID b' = ID b + 1"
    by blast
  have k: "word_of_nat (writes_in (replicate 4294967295 (Write 0 0))) = (0xFFFFFFFF :: 32 word)"
    by (simp only: writes_in_replicate) simp
  have "ID b = 0xFFFFFFFF" using d k by simp
  moreover have "id_pkt (buffer b' ! unat (head b)) = 0xFFFFFFFF" using s k by simp
  moreover have "ID b' = 0" using d' d k by simp
  ultimately show ?thesis using h c r w by blast
qed

section \<open>Wraparound with four slots\<close>

text \<open>
  Claim C7. On a buffer constructed with capacity 4, six writes of the samples
  \<open>v0 .. v5\<close> return \<open>False\<close> four times and then \<open>True\<close> twice, and draining
  the buffer then yields the records of \<open>v2, v3, v4, v5\<close>, in this order, and
  leaves the buffer empty.
\<close>

theorem wraparound_capacity_4:
  "\<exists>b0 b6 b10.
     CircularBuffer_ctor (Storage g) 4 = Inr b0 \<and>
     write_all b0 [(v0, t0), (v1, t1), (v2, t2), (v3, t3), (v4, t4), (v5, t5)]
       = Some ([False, False, False, False, True, True], b6) \<and>
     drain b6 p
       = Some ([\<lparr>id_pkt = 2, timestamp = t2, value_pkt = v2\<rparr>,
                \<lparr>id_pkt = 3, timestamp = t3, value_pkt = v3\<rparr>,
                \<lparr>id_pkt = 4, timestamp = t4, value_pkt = v4\<rparr>,
                \<lparr>id_pkt = 5, timestamp = t5, value_pkt = v5\<rparr>],
               \<lparr>id_pkt = 5, timestamp = t5, value_pkt = v5\<rparr>, b10) \<and>
     count b10 = 0"
proof -
  let ?r = "\<lambda>i t v. \<lparr>id_pkt = i, timestamp = t, value_pkt = v\<rparr>"
  define m0 m1 m2 m3 where m: "m0 = g 0" "m1 = g 1" "m2 = g 2" "m3 = g 3"
  let ?b0 = "\<lparr>buffer = [m0, m1, m2, m3], bufferSize = 4, head = 0, tail = 0, count = 0, ID = 0\<rparr>"
  let ?b1 = "\<lparr>buffer = [?r 0 t0 v0, m1, m2, m3], bufferSize = 4, head = 1, tail = 0, count = 1, ID = 1\<rparr>"
  let ?b2 = "\<lparr>buffer = [?r 0 t0 v0, ?r 1 t1 v1, m2, m3], bufferSize = 4, head = 2, tail = 0, count = 2, ID = 2\<rparr>"
  let ?b3 = "\<lparr>buffer = [?r 0 t0 v0, ?r 1 t1 v1, ?r 2 t2 v2, m3], bufferSize = 4, head = 3, tail = 0, count = 3, ID = 3\<rparr>"
  let ?b4 = "\<lparr>buffer = [?r 0 t0 v0, ?r 1 t1 v1, ?r 2 t2 v2, ?r 3 t3 v3], bufferSize = 4, head = 0, tail = 0, count = 4, ID = 4\<rparr>"
  let ?b5 = "\<lparr>buffer = [?r 4 t4 v4, ?r 1 t1 v1, ?r 2 t2 v2, ?r 3 t3 v3], bufferSize = 4, head = 1, tail = 1, count = 4, ID = 5\<rparr>"
  let ?b6 = "\<lparr>buffer = [?r 4 t4 v4, ?r 5 t5 v5, ?r 2 t2 v2, ?r 3 t3 v3], bufferSize = 4, head = 2, tail = 2, count = 4, ID = 6\<rparr>"
  let ?d = "\<lambda>t c. \<lparr>buffer = [?r 4 t4 v4, ?r 5 t5 v5, ?r 2 t2 v2, ?r 3 t3 v3], bufferSize = 4, head = 2, tail = t, count = c, ID = 6\<rparr>"
  let ?b7 = "?d 3 3"
  let ?b8 = "?d 0 2"
  let ?b9 = "?d 1 1"
  let ?b10 = "?d 2 0"
  have c: "CircularBuffer_ctor (Storage g) 4 = Inr ?b0"
    by (simp add: ctor_Storage upt_4 m)
  have w1: "write_cb ?b0 v0 t0 = Some (False, ?b1)"
    by (simp add: write_cb_def advance_def)
  have w2: "write_cb ?b1 v1 t1 = Some (False, ?b2)"
    by (simp add: write_cb_def advance_def)
  have w3: "write_cb ?b2 v2 t2 = Some (False, ?b3)"
    by (simp add: write_cb_def advance_def)
  have w4: "write_cb ?b3 v3 t3 = Some (False, ?b4)"
    by (simp add: write_cb_def advance_def)
  have w5: "write_cb ?b4 v4 t4 = Some (True, ?b5)"
    by (simp add: write_cb_def advance_def)
  have w6: "write_cb ?b5 v5 t5 = Some (True, ?b6)"
    by (simp add: write_cb_def advance_def)
  have w: "write_all ?b0 [(v0, t0), (v1, t1), (v2, t2), (v3, t3), (v4, t4), (v5, t5)]
       = Some ([False, False, False, False, True, True], ?b6)"
    by (simp add: w1 w2 w3 w4 w5 w6)
  have r1: "read ?b6 q = Some (True, ?r 2 t2 v2, ?b7)" for q
    by (simp add: read_def advance_def)
  have r2: "read ?b7 q = Some (True, ?r 3 t3 v3, ?b8)" for q
    by (simp add: read_def advance_def)
  have r3: "read ?b8 q = Some (True, ?r 4 t4 v4, ?b9)" for q
    by (simp add: read_def advance_def)
  have r4: "read ?b9 q = Some (True, ?r 5 t5 v5, ?b10)" for q
    by (simp add: read_def advance_def)
  have r5: "read ?b10 q = Some (False, q, ?b10)" for q
    by (simp add: read_def)
  have d5: "drain ?b10 q = Some ([], q, ?b10)" for q
    by (subst drain.simps) (simp add: r5)
  have d4: "drain ?b9 q = Some ([?r 5 t5 v5], ?r 5 t5 v5, ?b10)" for q
    by (subst drain.simps) (simp add: r4 d5)
  have d3: "drain ?b8 q = Some ([?r 4 t4 v4, ?r 5 t5 v5], ?r 5 t5 v5, ?b10)" for q
    by (subst drain.simps) (simp add: r3 d4)
  have d2: "drain ?b7 q = Some ([?r 3 t3 v3, ?r 4 t4 v4, ?r 5 t5 v5], ?r 5 t5 v5, ?b10)" for q
    by (subst drain.simps) (simp add: r2 d3)
  have d1: "drain ?b6 q = Some ([?r 2 t2 v2, ?r 3 t3 v3, ?r 4 t4 v4, ?r 5 t5 v5], ?r 5 t5 v5, ?b10)" for q
    by (subst drain.simps) (simp add: r1 d2)
  have "count ?b10 = 0" by simp
  with c w d1 [of p] show ?thesis by blast
qed


section \<open>Construction with capacity 0\<close>

text \<open>
  Claim C5 says that the constructor rejects a capacity of 0. It does not: the
  constructor has no check, and with capacity 0 it produces a buffer of no slots.
\<close>

theorem ctor_zero_capacity_counterexample:
  "\<not> isl (CircularBuffer_ctor zero_heap 0) \<and>
   CircularBuffer_ctor zero_heap 0
     = Inr \<lparr>buffer = [], bufferSize = 0, head = 0, tail = 0, count = 0, ID = 0\<rparr>"
  by (simp add: ctor_Storage zero_heap_def)

text \<open>
  Claim C5, amended. The constructor rejects no capacity and clamps none: for every
  capacity, 0 included, it produces (unless the allocation itself fails) a buffer
  whose \<^verbatim>\<open>bufferSize\<close> is the capacity asked for, with that many slots and
  \<^verbatim>\<open>head\<close>, \<^verbatim>\<open>tail\<close>, \<^verbatim>\<open>count\<close> and \<^verbatim>\<open>ID\<close> at 0. On the buffer of capacity 0
  a \<^verbatim>\<open>write\<close> has no defined result.
\<close>

theorem ctor_accepts_every_capacity:
  "CircularBuffer_ctor (Storage g) n
     = Inr \<lparr>buffer = map g [0..<unat n], bufferSize = n, head = 0, tail = 0, count = 0, ID = 0\<rparr> \<and>
   length (map g [0..<unat n]) = unat n \<and>
   CircularBuffer_ctor OutOfMemory n = Inl BadAlloc \<and>
   CircularBuffer_ctor (Storage g) 0
     = Inr \<lparr>buffer = [], bufferSize = 0, head = 0, tail = 0, count = 0, ID = 0\<rparr> \<and>
   write_cb \<lparr>buffer = [], bufferSize = 0, head = 0, tail = 0, count = 0, ID = 0\<rparr> v t = None"
  by (simp add: ctor_Storage CircularBuffer_ctor_def new_array_def write_cb_def)

section \<open>First in, first out\<close>

text \<open>
  Claim C3 says that the records drained after at most \<^verbatim>\<open>bufferSize\<close> writes into
  an empty buffer have strictly increasing ids. They do not when \<^verbatim>\<open>ID\<close> wraps
  between two of the writes: the buffer of two slots that \<open>2^32 - 1\<close> rounds of
  \<^verbatim>\<open>write\<close> and \<^verbatim>\<open>read\<close> leave empty has \<^verbatim>\<open>ID = 2^32 - 1\<close>, and two writes
  into it create the ids \<open>2^32 - 1\<close> and \<open>0\<close>, in this order.
\<close>

theorem fifo_ids_wrap_counterexample:
  "CircularBuffer_ctor zero_heap 2 = Inr fresh_buffer \<and>
   run fresh_buffer (concat (replicate 4294967295 [Write 0 0, Read zero_packet])) = Some wrap_buffer \<and>
   cb_inv wrap_buffer \<and> count wrap_buffer = 0 \<and>
   length [(1 :: 16 word, 10 :: 32 word), (2, 20)] \<le> unat (bufferSize wrap_buffer) \<and>
   write_all wrap_buffer [(1, 10), (2, 20)] = Some ([False, False], wrap_buffer_full) \<and>
   drain wrap_buffer_full zero_packet
     = Some ([\<lparr>id_pkt = 0xFFFFFFFF, timestamp = 10, value_pkt = 1\<rparr>,
              \<lparr>id_pkt = 0, timestamp = 20, value_pkt = 2\<rparr>],
             \<lparr>id_pkt = 0, timestamp = 20, value_pkt = 2\<rparr>, wrap_buffer_drained) \<and>
   \<not> sorted_wrt (<) (map id_pkt [\<lparr>id_pkt = 0xFFFFFFFF, timestamp = 10, value_pkt = 1\<rparr>,
                                  \<lparr>id_pkt = 0, timestamp = 20, value_pkt = 2\<rparr>])"
proof -
  let ?r1 = "\<lparr>id_pkt = 0xFFFFFFFF, timestamp = 10, value_pkt = 1\<rparr>"
  let ?r2 = "\<lparr>id_pkt = 0, timestamp = 20, value_pkt = 2\<rparr>"
  define mid where "mid = wrap_buffer\<lparr>buffer := [\<lparr>id_pkt = 0xFFFFFFFE, timestamp = 0, value_pkt = 0\<rparr>, ?r1],
                       head := 0, count := 1, ID := 0\<rparr>"
  define half where "half = wrap_buffer_full\<lparr>tail := 0, count := 1\<rparr>"
  have i: "cb_inv wrap_buffer" by (simp add: cb_inv_def wrap_buffer_def)
  have w1: "write_cb wrap_buffer 1 10 = Some (False, mid)"
    by (simp add: write_cb_def advance_def wrap_buffer_def mid_def)
  have w2: "write_cb mid 2 20 = Some (False, wrap_buffer_full)"
    by (simp add: write_cb_def advance_def wrap_buffer_def mid_def wrap_buffer_full_def)
  have w: "write_all wrap_buffer [(1, 10), (2, 20)] = Some ([False, False], wrap_buffer_full)"
    by (simp add: w1 w2)
  have r1: "read wrap_buffer_full q = Some (True, ?r1, half)" for q
    by (simp add: read_def advance_def wrap_buffer_full_def half_def)
  have r2: "read half q = Some (True, ?r2, wrap_buffer_drained)" for q
    by (simp add: read_def advance_def wrap_buffer_full_def half_def wrap_buffer_drained_def)
  have r3: "read wrap_buffer_drained q = Some (False, q, wrap_buffer_drained)" for q
    by (simp add: read_def wrap_buffer_drained_def)
  have d3: "drain wrap_buffer_drained q = Some ([], q, wrap_buffer_drained)" for q
    by (subst drain.simps) (simp add: r3)
  have d2: "drain half q = Some ([?r2], ?r2, wrap_buffer_drained)" for q
    by (subst drain.simps) (simp add: r2 d3)
  have d1: "drain wrap_buffer_full q = Some ([?r1, ?r2], ?r2, wrap_buffer_drained)" for q
    by (subst drain.simps) (simp add: r1 d2)
  have c: "count wrap_buffer = 0" "length [(1 :: 16 word, 10 :: 32 word), (2, 20)] \<le> unat (bufferSize wrap_buffer)"
    by (simp_all add: wrap_buffer_def)
  have n: "\<not> sorted_wrt (<) (map id_pkt [?r1, ?r2])" by simp
  show ?thesis
    using ctor_fresh_buffer wrap_buffer_reachable i c w d1 [of zero_packet] n by blast
qed

text \<open>
  Claim C3, amended. On every empty buffer that satisfies the class invariant, a
  sequence of at most \<^verbatim>\<open>bufferSize\<close> writes returns \<open>False\<close> every time, and
  \<^verbatim>\<open>available()\<close> then equals the number of writes. Draining the buffer
  returns one record per write, in the order of the writes, each with the value
  and the timestamp of its write, and leaves the buffer empty. The ids are
  consecutive modulo \<open>2^32\<close>, starting at the \<^verbatim>\<open>ID\<close> before the first write; they
  are strictly increasing exactly when \<^verbatim>\<open>ID\<close> plus the number of writes is at most
  \<open>2^32\<close>, which holds on a freshly constructed buffer.
\<close>

theorem fifo_within_capacity:
  assumes "cb_inv b" "count b = 0" "length xs \<le> unat (bufferSize b)"
  shows "\<exists>b1 ps q b2.
           write_all b xs = Some (replicate (length xs) False, b1) \<and>
           unat (fst (available b1)) = length xs \<and>
           drain b1 p = Some (ps, q, b2) \<and> fst (available b2) = 0 \<and>
           map (\<lambda>r. (value_pkt r, timestamp r)) ps = xs \<and>
           map id_pkt ps = map (\<lambda>k. ID b + word_of_nat k) [0..<length xs] \<and>
           (sorted_wrt (<) (map id_pkt ps) \<longleftrightarrow> unat (ID b) + length xs \<le> 2 ^ 32)"
proof -
  have e: "stored b = []" using assms(2) by (simp add: stored_def)
  have "unat (count b) + length xs \<le> unat (bufferSize b)" using assms(2,3) by simp
  from write_all_fits [OF assms(1) this] obtain b1 where
    w: "write_all b xs = Some (replicate (length xs) False, b1)" and i1: "cb_inv b1"
    and s1: "stored b1 = records (ID b) xs" and n1: "unat (count b1) = length xs"
    using e assms(2) by auto
  from drain_stored [OF i1, of p] obtain q b2 where
    d: "drain b1 p = Some (records (ID b) xs, q, b2)" and z: "count b2 = 0"
    using s1 by auto
  have "length xs < 2 ^ 32"
  proof -
    have "unat (bufferSize b) < 2 ^ 16" using unsigned_less [of "bufferSize b"] by simp
    with assms(3) show ?thesis by simp
  qed
  then have "sorted_wrt (<) (map id_pkt (records (ID b) xs)) \<longleftrightarrow> unat (ID b) + length xs \<le> 2 ^ 32"
    by (simp only: records_ids ids_sorted_iff)
  then show ?thesis
    using w d z n1 by (simp add: available_def records_samples records_ids)
qed


theorem fifo_within_capacity_witness:
  "cb_inv fresh_buffer \<and> count fresh_buffer = 0 \<and>
   length [(1 :: 16 word, 10 :: 32 word), (2, 20)] \<le> unat (bufferSize fresh_buffer) \<and>
   (\<exists>b1 ps q b2.
      write_all fresh_buffer [(1, 10), (2, 20)] = Some ([False, False], b1) \<and>
      unat (fst (available b1)) = 2 \<and>
      drain b1 zero_packet = Some (ps, q, b2) \<and> fst (available b2) = 0 \<and>
      map (\<lambda>r. (value_pkt r, timestamp r)) ps = [(1, 10), (2, 20)] \<and>
      map id_pkt ps = [0, 1] \<and> sorted_wrt (<) (map id_pkt ps))"
proof -
  have h2: "count fresh_buffer = 0" by (simp add: fresh_buffer_def)
  have h3: "length [(1 :: 16 word, 10 :: 32 word), (2, 20)] \<le> unat (bufferSize fresh_buffer)"
    by (simp add: fresh_buffer_def)
  have u: "[0..<2] = [0, Suc 0]" by (simp add: numeral_2_eq_2)
  have z: "ID fresh_buffer = 0" by (simp add: fresh_buffer_def)
  from fifo_within_capacity [OF cb_inv_fresh h2 h3, of zero_packet] obtain b1 ps q b2 where
    f: "write_all fresh_buffer [(1, 10), (2, 20)] = Some ([False, False], b1)"
    "unat (fst (available b1)) = 2"
    "drain b1 zero_packet = Some (ps, q, b2)" "fst (available b2) = 0"
    "map (\<lambda>r. (value_pkt r, timestamp r)) ps = [(1, 10), (2, 20)]"
    "map id_pkt ps = [0, 1]" "sorted_wrt (<) (map id_pkt ps)"
    by (auto simp: u z numeral_2_eq_2)
  show ?thesis
    by (intro conjI exI) (rule cb_inv_fresh h2 h3 f)+
qed

end
